theory Spec2Isabelle
  imports Main "HOL-Library.Word" "HOL-Library.Multiset"
begin

section \<open>Strings\<close>

text \<open>
  A JavaScript string is a sequence of UTF-16 code units. The sanitizer's regular
  expressions and \<^verbatim>\<open>trim\<close> look at single code units only, so a string is a list
  of 16-bit words. \<open>str\<close> embeds an ASCII literal.
\<close>

type_synonym jsstring = "16 word list"

definition str :: "string \<Rightarrow> jsstring" where
  "str s = map of_char s"

definition NL :: "16 word" where
  "NL = 0x0A"

definition fence :: jsstring where
  "fence = [0x60, 0x60, 0x60]"

section \<open>ContentSanitizer: \<^verbatim>\<open>cleanCode\<close>\<close>

text \<open>
  \<^verbatim>\<open>const cleanCode = (input) =>
      input.replace(/^```[a-z]*\n/i, '').replace(/```$/, '').trim();\<close>

  Neither expression has the \<^verbatim>\<open>m\<close> or \<^verbatim>\<open>g\<close> flag: \<^verbatim>\<open>^\<close> is the start of the
  input, \<^verbatim>\<open>$\<close> its end, and at most one match is replaced. Under \<^verbatim>\<open>i\<close> without
  \<^verbatim>\<open>u\<close> the class \<^verbatim>\<open>[a-z]\<close> is the ASCII letters of both cases.
\<close>

definition is_letter :: "16 word \<Rightarrow> bool" where
  "is_letter c = ((0x41 \<le> c \<and> c \<le> 0x5A) \<or> (0x61 \<le> c \<and> c \<le> 0x7A))"

text \<open>The code units \<^verbatim>\<open>String.prototype.trim\<close> removes: WhiteSpace and LineTerminator.\<close>

definition is_ws :: "16 word \<Rightarrow> bool" where
  "is_ws c = ((0x09 \<le> c \<and> c \<le> 0x0D) \<or> c = 0x20 \<or> c = 0xA0 \<or> c = 0x1680
              \<or> (0x2000 \<le> c \<and> c \<le> 0x200A) \<or> c = 0x2028 \<or> c = 0x2029
              \<or> c = 0x202F \<or> c = 0x205F \<or> c = 0x3000 \<or> c = 0xFEFF)"

text \<open>\<^verbatim>\<open>/^```[a-z]*\n/i\<close> matches: three backticks, the longest run of letters, a newline.\<close>

definition opens_with_fence :: "jsstring \<Rightarrow> bool" where
  "opens_with_fence s =
     (take 3 s = fence \<and>
      (case dropWhile is_letter (drop 3 s) of [] \<Rightarrow> False | c # _ \<Rightarrow> c = NL))"

definition strip_open :: "jsstring \<Rightarrow> jsstring" where
  "strip_open s =
     (if opens_with_fence s then tl (dropWhile is_letter (drop 3 s)) else s)"

text \<open>\<^verbatim>\<open>/```$/\<close> matches exactly when the input ends with three backticks.\<close>

definition ends_with_fence :: "jsstring \<Rightarrow> bool" where
  "ends_with_fence s = (3 \<le> length s \<and> drop (length s - 3) s = fence)"

definition strip_close :: "jsstring \<Rightarrow> jsstring" where
  "strip_close s = (if ends_with_fence s then take (length s - 3) s else s)"

definition trim :: "jsstring \<Rightarrow> jsstring" where
  "trim s = rev (dropWhile is_ws (rev (dropWhile is_ws s)))"

definition cleanCode :: "jsstring \<Rightarrow> jsstring" where
  "cleanCode input = trim (strip_close (strip_open input))"

section \<open>ExecutionSandbox: the effect of \<^verbatim>\<open>ProjectViewer\<close>\<close>

text \<open>
  The isolated document, as far as the effect touches it: \<^verbatim>\<open>doc.open()\<close> discards what
  the document held, \<^verbatim>\<open>doc.write\<close> appends markup, \<^verbatim>\<open>doc.close()\<close> ends the stream.
\<close>

datatype error = TypeError

record document =
  content :: jsstring
  opened :: bool

definition doc_open :: "document \<Rightarrow> document" where
  "doc_open d = d\<lparr>content := [], opened := True\<rparr>"

definition doc_write :: "jsstring \<Rightarrow> document \<Rightarrow> document" where
  "doc_write markup d = d\<lparr>content := content d @ markup\<rparr>"

definition doc_close :: "document \<Rightarrow> document" where
  "doc_close d = d\<lparr>opened := False\<rparr>"

definition script :: jsstring where
  \<open>script = str ''<script>window.onerror = function(m){document.body.innerHTML='<div style="color:red;padding:20px;font-family:sans-serif"><h3>Runtime Error</h3>'+m+'</div>'}</script>''\<close>

text \<open>
  The handler that the script installs, \<^verbatim>\<open>function(m){document.body.innerHTML = '<div
  ...><h3>Runtime Error</h3>' + m + '</div>'}\<close>, run on the state of the isolated
  document at the moment an error is reported. Of that state the handler touches only
  \<^verbatim>\<open>document.body\<close>: \<open>None\<close> is a document that has no body element yet
  (\<^verbatim>\<open>document.body\<close> is \<^verbatim>\<open>null\<close>), \<open>Some h\<close> a body whose markup is \<open>h\<close>. Assigning
  to a property of \<^verbatim>\<open>null\<close> throws, so without a body the handler ends in a
  \<^verbatim>\<open>TypeError\<close> of its own and nothing is shown.
\<close>

record dom_state =
  body :: "jsstring option"

definition panel_head :: jsstring where
  \<open>panel_head = str ''<div style="color:red;padding:20px;font-family:sans-serif"><h3>Runtime Error</h3>''\<close>

definition panel_tail :: jsstring where
  "panel_tail = str ''</div>''"

definition panel :: "jsstring \<Rightarrow> jsstring" where
  "panel m = panel_head @ m @ panel_tail"

definition onerror :: "jsstring \<Rightarrow> dom_state \<Rightarrow> error + dom_state" where
  "onerror m d =
     (case body d of
        None \<Rightarrow> Inl TypeError
      | Some _ \<Rightarrow> Inr (d\<lparr>body := Some (panel m)\<rparr>))"

section \<open>Entries, palette and the gallery state\<close>

text \<open>
  An entry is the object the snapshot listener builds from a stored document. \<open>ref\<close> is
  the identity of the JavaScript object: \<^verbatim>\<open>===\<close> on objects compares identities, not
  fields. \<open>createdAt\<close> holds the timestamp's \<^verbatim>\<open>seconds\<close>; \<open>None\<close> is an absent field.
\<close>

record entry =
  ref :: nat
  id' :: string
  color :: "string option"
  orderIndex :: "int option"
  createdAt :: "int option"
  code :: jsstring

text \<open>
  What a list slot or the dragged-item marker can hold: \<^verbatim>\<open>null\<close> (the marker's
  initial value), \<^verbatim>\<open>undefined\<close> (an out-of-range read) or an entry object.
\<close>

datatype jsval = Null | Undefined | Obj entry

fun strict_eq :: "jsval \<Rightarrow> jsval \<Rightarrow> bool" where
  "strict_eq Null Null = True"
| "strict_eq Undefined Undefined = True"
| "strict_eq (Obj a) (Obj b) = (ref a = ref b)"
| "strict_eq _ _ = False"

record theme =
  name :: string
  bg :: string
  text' :: string
  border :: string
  hover :: string
  shadow :: string
  ring :: string

definition COLORS :: "(string \<times> theme) list" where
  "COLORS =
    [(''indigo'', \<lparr>name = ''Indigo'', bg = ''bg-indigo-50'', text' = ''text-indigo-600'',
        border = ''border-indigo-200'', hover = ''hover:border-indigo-300'',
        shadow = ''hover:shadow-indigo-200/50'', ring = ''ring-indigo-500''\<rparr>),
     (''emerald'', \<lparr>name = ''Emerald'', bg = ''bg-emerald-50'', text' = ''text-emerald-600'',
        border = ''border-emerald-200'', hover = ''hover:border-emerald-300'',
        shadow = ''hover:shadow-emerald-200/50'', ring = ''ring-emerald-500''\<rparr>),
     (''amber'', \<lparr>name = ''Amber'', bg = ''bg-amber-50'', text' = ''text-amber-600'',
        border = ''border-amber-200'', hover = ''hover:border-amber-300'',
        shadow = ''hover:shadow-amber-200/50'', ring = ''ring-amber-500''\<rparr>),
     (''rose'', \<lparr>name = ''Rose'', bg = ''bg-rose-50'', text' = ''text-rose-600'',
        border = ''border-rose-200'', hover = ''hover:border-rose-300'',
        shadow = ''hover:shadow-rose-200/50'', ring = ''ring-rose-500''\<rparr>),
     (''cyan'', \<lparr>name = ''Cyan'', bg = ''bg-cyan-50'', text' = ''text-cyan-600'',
        border = ''border-cyan-200'', hover = ''hover:border-cyan-300'',
        shadow = ''hover:shadow-cyan-200/50'', ring = ''ring-cyan-500''\<rparr>),
     (''purple'', \<lparr>name = ''Purple'', bg = ''bg-purple-50'', text' = ''text-purple-600'',
        border = ''border-purple-200'', hover = ''hover:border-purple-300'',
        shadow = ''hover:shadow-purple-200/50'', ring = ''ring-purple-500''\<rparr>)]"

text \<open>
  \<^verbatim>\<open>const theme = COLORS[p.color || 'indigo'];\<close>
  The operator \<^verbatim>\<open>||\<close> takes its right operand when the left one is falsy: an absent
  field or the empty string. The lookup is by own key of the table; \<open>None\<close> stands for a
  key with no palette entry (JavaScript yields \<^verbatim>\<open>undefined\<close> or a member inherited from
  \<^verbatim>\<open>Object.prototype\<close>, neither of which is a theme).
\<close>

definition color_key :: "entry \<Rightarrow> string" where
  "color_key p = (case color p of None \<Rightarrow> ''indigo'' | Some c \<Rightarrow> if c = [] then ''indigo'' else c)"

definition theme_of :: "entry \<Rightarrow> theme option" where
  "theme_of p = map_of COLORS (color_key p)"

text \<open>
  The effect of \<^verbatim>\<open>ProjectViewer\<close>: it runs only when the frame is mounted and a project
  is given, and writes the handler script and the project's code in one \<^verbatim>\<open>write\<close>.
\<close>

definition viewer_effect :: "document option \<Rightarrow> entry option \<Rightarrow> document option" where
  "viewer_effect iframe project =
     (case (iframe, project) of
        (Some d, Some p) \<Rightarrow> Some (doc_close (doc_write (script @ code p) (doc_open d)))
      | _ \<Rightarrow> iframe)"

datatype log_line = ConsoleLog string | ConsoleError string

record hub =
  projects :: "jsval list"
  draggedItem :: jsval
  isCreator :: bool
  console :: "log_line list"

section \<open>ListSnapshot: the listener's callback\<close>

text \<open>
  \<^verbatim>\<open>data.sort((a, b) => {
      if (a.orderIndex !== undefined && b.orderIndex !== undefined)
        return a.orderIndex - b.orderIndex;
      return (b.createdAt?.seconds || 0) - (a.createdAt?.seconds || 0);
    });
    setProjects(data);\<close>
\<close>

definition seconds_or_0 :: "entry \<Rightarrow> int" where
  "seconds_or_0 e = (case createdAt e of None \<Rightarrow> 0 | Some s \<Rightarrow> s)"

definition compareFn :: "entry \<Rightarrow> entry \<Rightarrow> int" where
  "compareFn a b =
     (case (orderIndex a, orderIndex b) of
        (Some i, Some j) \<Rightarrow> i - j
      | _ \<Rightarrow> seconds_or_0 b - seconds_or_0 a)"

text \<open>
  \<^verbatim>\<open>Array.prototype.sort\<close> is stable; an element goes before another when the
  comparator is negative on them. It is modelled as the stable insertion sort engines run
  on short arrays: elements are taken left to right and each goes before the first placed
  element it compares below. For a comparator that is a consistent ordering of the
  array every conforming sort returns the same list; for an inconsistent one the language
  leaves the order to the engine.
\<close>

fun insert_by :: "('a \<Rightarrow> 'a \<Rightarrow> int) \<Rightarrow> 'a \<Rightarrow> 'a list \<Rightarrow> 'a list" where
  "insert_by cmp x [] = [x]"
| "insert_by cmp x (y # ys) = (if cmp x y < 0 then x # y # ys else y # insert_by cmp x ys)"

definition sort_by :: "('a \<Rightarrow> 'a \<Rightarrow> int) \<Rightarrow> 'a list \<Rightarrow> 'a list" where
  "sort_by cmp xs = foldl (\<lambda>acc x. insert_by cmp x acc) [] xs"

definition onSnapshot :: "entry list \<Rightarrow> hub \<Rightarrow> hub" where
  "onSnapshot data st = st\<lparr>projects := map Obj (sort_by compareFn data)\<rparr>"

section \<open>OrderingEngine: the drag handlers\<close>

text \<open>\<^verbatim>\<open>projects[index]\<close>: a read past the end yields \<^verbatim>\<open>undefined\<close>.\<close>

definition at_index :: "jsval list \<Rightarrow> nat \<Rightarrow> jsval" where
  "at_index xs i = (if i < length xs then xs ! i else Undefined)"

text \<open>\<^verbatim>\<open>items.splice(index, 0, item)\<close>: a start past the end is clamped to the length.\<close>

definition splice_in :: "nat \<Rightarrow> 'a \<Rightarrow> 'a list \<Rightarrow> 'a list" where
  "splice_in i x xs = take i xs @ x # drop i xs"

definition handleDragStart :: "nat \<Rightarrow> hub \<Rightarrow> hub" where
  "handleDragStart index st = st\<lparr>draggedItem := at_index (projects st) index\<rparr>"

definition handleDragOver :: "nat \<Rightarrow> hub \<Rightarrow> hub" where
  "handleDragOver index st =
     (let draggedOverItem = at_index (projects st) index in
      if strict_eq (draggedItem st) draggedOverItem then st
      else
        let items = filter (\<lambda>item. \<not> strict_eq item (draggedItem st)) (projects st)
        in st\<lparr>projects := splice_in index (draggedItem st) items\<rparr>)"

text \<open>\<^verbatim>\<open>onDragOver={(e) => isCreator && handleDragOver(e, index)}\<close>\<close>

definition onDragOver :: "nat \<Rightarrow> hub \<Rightarrow> hub" where
  "onDragOver index st = (if isCreator st then handleDragOver index st else st)"

text \<open>
  The remote store, as far as the reorder commit touches it: the \<open>orderIndex\<close> field of
  each stored document, and the batches submitted so far. A batch is the list of
  \<^verbatim>\<open>batch.update(ref, { orderIndex: index })\<close> calls in the order they were made; a commit
  applies all of them or none.
\<close>

type_synonym batch = "(string \<times> int) list"

record store =
  docs :: "string \<rightharpoonup> int"
  submitted :: "batch list"

definition apply_batch :: "batch \<Rightarrow> (string \<rightharpoonup> int) \<Rightarrow> (string \<rightharpoonup> int)" where
  "apply_batch ws m = fold (\<lambda>(k, v) m. m(k \<mapsto> v)) ws m"

definition commit :: "bool \<Rightarrow> batch \<Rightarrow> store \<Rightarrow> store" where
  "commit ok ws db =
     db\<lparr>docs := (if ok then apply_batch ws (docs db) else docs db),
        submitted := submitted db @ [ws]\<rparr>"

text \<open>
  \<^verbatim>\<open>projects.forEach((proj, index) => { ... proj.id ... batch.update(ref, { orderIndex: index }) })\<close>
  Reading \<^verbatim>\<open>.id\<close> of \<^verbatim>\<open>null\<close> or \<^verbatim>\<open>undefined\<close> throws.
\<close>

fun batch_updates :: "nat \<Rightarrow> jsval list \<Rightarrow> error + batch" where
  "batch_updates index [] = Inr []"
| "batch_updates index (Obj proj # ps) =
     (case batch_updates (Suc index) ps of
        Inl e \<Rightarrow> Inl e
      | Inr ws \<Rightarrow> Inr ((id' proj, int index) # ws))"
| "batch_updates index (_ # ps) = Inl TypeError"

datatype outcome = Thrown error | Saved | Failed

text \<open>
  \<^verbatim>\<open>handleDragEnd\<close>: the marker is cleared first; the batch is built and committed;
  success and failure are each logged. \<open>ok\<close> is the store's answer to the commit.
\<close>

definition handleDragEnd :: "bool \<Rightarrow> hub \<times> store \<Rightarrow> outcome \<times> hub \<times> store" where
  "handleDragEnd ok = (\<lambda>(st, db).
     let st1 = st\<lparr>draggedItem := Null\<rparr> in
     case batch_updates 0 (projects st) of
       Inl e \<Rightarrow> (Thrown e, st1, db)
     | Inr ws \<Rightarrow>
         if ok then (Saved, st1\<lparr>console := console st1 @ [ConsoleLog ''Order saved!'']\<rparr>,
                     commit True ws db)
         else (Failed, st1\<lparr>console := console st1 @ [ConsoleError ''Failed to save order'']\<rparr>,
               commit False ws db))"

section \<open>Worked examples\<close>

text \<open>
  Concrete entries and states for the closed theorems below: two indexed entries, two
  legacy entries without \<open>orderIndex\<close> (one with a color outside the palette, one without
  a timestamp), an entry whose code is a single script that throws, a signed-in creator's
  gallery before and after its first snapshot, a store holding the two indexed documents,
  and a drag of the first card over the second.
\<close>

definition entry_A :: entry where
  "entry_A = \<lparr>ref = 1, id' = ''a'', color = None, orderIndex = Some 0,
              createdAt = Some 100, code = str ''<p>A</p>''\<rparr>"

definition entry_B :: entry where
  "entry_B = \<lparr>ref = 2, id' = ''b'', color = Some ''emerald'', orderIndex = Some 1,
              createdAt = Some 200, code = str ''<p>B</p>''\<rparr>"

definition entry_C :: entry where
  "entry_C = \<lparr>ref = 3, id' = ''c'', color = Some ''teal'', orderIndex = None,
              createdAt = Some 300, code = str ''<p>C</p>''\<rparr>"

definition entry_D :: entry where
  "entry_D = \<lparr>ref = 4, id' = ''d'', color = Some [], orderIndex = None,
              createdAt = None, code = str ''<p>D</p>''\<rparr>"

definition entry_T :: entry where
  "entry_T = \<lparr>ref = 7, id' = ''t'', color = None, orderIndex = Some 2,
              createdAt = Some 400, code = str ''<script>throw new Error(1)</script>''\<rparr>"

definition hub_init :: hub where
  "hub_init = \<lparr>projects = [], draggedItem = Null, isCreator = True, console = []\<rparr>"

definition store_init :: store where
  "store_init = \<lparr>docs = [''a'' \<mapsto> 0, ''b'' \<mapsto> 1], submitted = []\<rparr>"

definition hub_synced :: hub where
  "hub_synced = onSnapshot [entry_B, entry_A] hub_init"

definition hub_dragged :: hub where
  "hub_dragged = handleDragOver 1 (handleDragStart 0 hub_synced)"

definition hub_abc :: hub where
  "hub_abc = hub_init\<lparr>projects := [Obj entry_A, Obj entry_B, Obj entry_C]\<rparr>"

section \<open>Evaluating the worked examples\<close>

lemmas ex_defs = entry_A_def entry_B_def entry_C_def entry_D_def hub_init_def store_init_def

lemmas run_defs = ex_defs hub_synced_def hub_dragged_def onSnapshot_def sort_by_def
  compareFn_def seconds_or_0_def handleDragStart_def handleDragOver_def onDragOver_def
  at_index_def splice_in_def handleDragEnd_def commit_def apply_batch_def

lemma hub_synced_projects: "projects hub_synced = [Obj entry_A, Obj entry_B]"
  by (simp add: run_defs)

lemma hub_dragged_projects: "projects hub_dragged = [Obj entry_B, Obj entry_A]"
  by (simp add: run_defs)

section \<open>Properties of the sanitizer\<close>

lemma dropWhile_fix: "xs = [] \<or> \<not> P (hd xs) \<Longrightarrow> dropWhile P xs = xs"
  by (cases xs) auto

lemma dropWhile_hd: "dropWhile P xs = [] \<or> \<not> P (hd (dropWhile P xs))"
  using hd_dropWhile by blast

lemma trim_fix: "t = [] \<or> (\<not> is_ws (hd t) \<and> \<not> is_ws (last t)) \<Longrightarrow> trim t = t"
proof (cases "t = []")
  case True
  then show ?thesis by (simp add: trim_def)
next
  case False
  assume "t = [] \<or> (\<not> is_ws (hd t) \<and> \<not> is_ws (last t))"
  with False have h: "\<not> is_ws (hd t)" and l: "\<not> is_ws (last t)" by auto
  have 1: "dropWhile is_ws t = t" using h by (simp add: dropWhile_fix)
  have "hd (rev t) = last t" using False by (simp add: hd_rev)
  then have 2: "dropWhile is_ws (rev t) = rev t" using l by (simp add: dropWhile_fix)
  show ?thesis by (simp add: trim_def 1 2)
qed

lemma last_dropWhile: "dropWhile P xs \<noteq> [] \<Longrightarrow> last (dropWhile P xs) = last xs"
  by (induction xs) (auto split: if_splits)

lemma trim_trimmed: "trim s = [] \<or> (\<not> is_ws (hd (trim s)) \<and> \<not> is_ws (last (trim s)))"
proof (cases "trim s = []")
  case True
  then show ?thesis by simp
next
  case False
  define u where "u = dropWhile is_ws s"
  define d where "d = dropWhile is_ws (rev u)"
  have t: "trim s = rev d" by (simp add: trim_def u_def d_def)
  with False have dne: "d \<noteq> []" by simp
  then have une: "u \<noteq> []" by (auto simp: d_def)
  have "\<not> is_ws (hd d)" using dne dropWhile_hd [of is_ws "rev u"] unfolding d_def by blast
  then have l: "\<not> is_ws (last (trim s))" using dne by (simp add: t last_rev)
  have "last d = last (rev u)" using dne last_dropWhile [of is_ws "rev u"] by (simp add: d_def)
  also have "\<dots> = hd u" using une by (simp add: last_rev)
  finally have "hd (trim s) = hd u" using dne by (simp add: t hd_rev)
  moreover have "\<not> is_ws (hd u)" using une dropWhile_hd [of is_ws s] unfolding u_def by blast
  ultimately show ?thesis using l by simp
qed

lemma trim_idem: "trim (trim s) = trim s"
  by (rule trim_fix) (rule trim_trimmed)

lemma length_trim: "length (trim s) \<le> length s"
proof -
  have "length (trim s) \<le> length (dropWhile is_ws s)"
    using length_dropWhile_le [of is_ws "rev (dropWhile is_ws s)"] by (simp add: trim_def)
  also have "\<dots> \<le> length s" by (rule length_dropWhile_le)
  finally show ?thesis .
qed

lemma length_strip_close: "length (strip_close s) \<le> length s"
  by (simp add: strip_close_def)

lemma length_strip_close_less: "ends_with_fence s \<Longrightarrow> length (strip_close s) < length s"
  by (auto simp: strip_close_def ends_with_fence_def)

lemma strip_open_decomp:
  "opens_with_fence s \<Longrightarrow>
     s = fence @ takeWhile is_letter (drop 3 s) @ NL # strip_open s"
proof -
  assume o: "opens_with_fence s"
  then have f: "take 3 s = fence" by (simp add: opens_with_fence_def)
  from o obtain r where r: "dropWhile is_letter (drop 3 s) = NL # r"
    by (auto simp: opens_with_fence_def split: list.splits)
  have "s = take 3 s @ drop 3 s" by simp
  also have "drop 3 s = takeWhile is_letter (drop 3 s) @ dropWhile is_letter (drop 3 s)"
    by simp
  finally show ?thesis using o f r by (simp add: strip_open_def)
qed

lemma length_strip_open: "length (strip_open s) \<le> length s"
proof (cases "opens_with_fence s")
  case True
  from strip_open_decomp [OF True]
  have "length s = length (fence @ takeWhile is_letter (drop 3 s) @ NL # strip_open s)"
    by simp
  then show ?thesis by simp
next
  case False
  then show ?thesis by (simp add: strip_open_def)
qed

lemma length_strip_open_less: "opens_with_fence s \<Longrightarrow> length (strip_open s) < length s"
proof -
  assume o: "opens_with_fence s"
  from strip_open_decomp [OF o]
  have "length s = length (fence @ takeWhile is_letter (drop 3 s) @ NL # strip_open s)"
    by simp
  then show ?thesis by simp
qed

lemma cleanCode_fix:
  "\<not> opens_with_fence t \<Longrightarrow> \<not> ends_with_fence t \<Longrightarrow> trim t = t \<Longrightarrow> cleanCode t = t"
  by (simp add: cleanCode_def strip_open_def strip_close_def)

lemma cleanCode_shrinks:
  "opens_with_fence t \<or> ends_with_fence t \<Longrightarrow> length (cleanCode t) < length t"
proof (cases "opens_with_fence t")
  case True
  then show ?thesis
    unfolding cleanCode_def
    using length_trim [of "strip_close (strip_open t)"] length_strip_close [of "strip_open t"]
      length_strip_open_less [of t] by linarith
next
  case False
  assume "opens_with_fence t \<or> ends_with_fence t"
  with False have e: "ends_with_fence t" by simp
  from False have "strip_open t = t" by (simp add: strip_open_def)
  then show ?thesis
    unfolding cleanCode_def
    using length_trim [of "strip_close t"] length_strip_close_less [OF e] by simp
qed

lemma trim_decomp:
  "\<exists>w1 w2. s = w1 @ trim s @ w2 \<and> (\<forall>c\<in>set w1. is_ws c) \<and> (\<forall>c\<in>set w2. is_ws c)"
proof -
  define u where "u = dropWhile is_ws s"
  have 1: "s = takeWhile is_ws s @ u" by (simp add: u_def)
  have "rev (takeWhile is_ws (rev u) @ dropWhile is_ws (rev u)) = u"
    by (simp only: takeWhile_dropWhile_id rev_rev_ident)
  then have "rev (dropWhile is_ws (rev u)) @ rev (takeWhile is_ws (rev u)) = u"
    by (simp only: rev_append)
  then have 2: "u = trim s @ rev (takeWhile is_ws (rev u))"
    by (simp only: trim_def u_def)
  have 3: "\<forall>c\<in>set (takeWhile is_ws s). is_ws c" by (auto dest: set_takeWhileD)
  have 4: "\<forall>c\<in>set (rev (takeWhile is_ws (rev u))). is_ws c" by (auto dest: set_takeWhileD)
  from 1 2 have "s = takeWhile is_ws s @ trim s @ rev (takeWhile is_ws (rev u))" by simp
  with 3 4 show ?thesis by blast
qed

lemma strip_open_prefix:
  "\<exists>opening. s = opening @ strip_open s \<and>
     (opening = [] \<or> (\<exists>l. opening = fence @ l @ [NL] \<and> (\<forall>c\<in>set l. is_letter c)))"
proof (cases "opens_with_fence s")
  case True
  have "\<forall>c\<in>set (takeWhile is_letter (drop 3 s)). is_letter c"
    by (auto dest: set_takeWhileD)
  moreover from strip_open_decomp [OF True]
  have "s = (fence @ takeWhile is_letter (drop 3 s) @ [NL]) @ strip_open s" by simp
  ultimately show ?thesis by blast
next
  case False
  then have "s = [] @ strip_open s" by (simp add: strip_open_def)
  then show ?thesis by blast
qed

lemma strip_close_suffix:
  "\<exists>closing. s = strip_close s @ closing \<and> (closing = [] \<or> closing = fence)"
proof (cases "ends_with_fence s")
  case True
  then have "drop (length s - 3) s = fence" by (simp add: ends_with_fence_def)
  moreover have "s = take (length s - 3) s @ drop (length s - 3) s" by simp
  ultimately have "s = strip_close s @ fence" using True by (simp add: strip_close_def)
  then show ?thesis by blast
next
  case False
  then have "s = strip_close s @ []" by (simp add: strip_close_def)
  then show ?thesis by blast
qed

text \<open>
  Claim C8. For every input the sanitizer returns a contiguous piece of it: what is cut
  off in front is an optional opening fence line (three backticks, letters, a newline) at
  the very start followed by whitespace, what is cut off behind is whitespace followed by
  an optional closing fence at the very end. The result carries no leading or trailing
  whitespace, and the fenced \<^verbatim>\<open>html\<close> example yields its payload.
\<close>

theorem cleanCode_strips_only_wrappers:
  "(\<exists>opening w1 w2 closing.
      s = opening @ w1 @ cleanCode s @ w2 @ closing
      \<and> (opening = [] \<or> (\<exists>l. opening = fence @ l @ [NL] \<and> (\<forall>c\<in>set l. is_letter c)))
      \<and> (closing = [] \<or> closing = fence)
      \<and> (\<forall>c\<in>set w1. is_ws c) \<and> (\<forall>c\<in>set w2. is_ws c))
   \<and> (cleanCode s = [] \<or> (\<not> is_ws (hd (cleanCode s)) \<and> \<not> is_ws (last (cleanCode s))))
   \<and> cleanCode (str ''```html'' @ [NL] @ str ''<p>x</p>'' @ [NL] @ str ''```'') = str ''<p>x</p>''"
proof (intro conjI)
  obtain pre where o: "s = pre @ strip_open s"
    and o': "pre = [] \<or> (\<exists>l. pre = fence @ l @ [NL] \<and> (\<forall>c\<in>set l. is_letter c))"
    using strip_open_prefix [of s] by blast
  obtain post where c: "strip_open s = strip_close (strip_open s) @ post"
    and c': "post = [] \<or> post = fence"
    using strip_close_suffix [of "strip_open s"] by blast
  obtain w1 w2 where w: "strip_close (strip_open s) = w1 @ cleanCode s @ w2"
    and w': "\<forall>c\<in>set w1. is_ws c" "\<forall>c\<in>set w2. is_ws c"
    using trim_decomp [of "strip_close (strip_open s)"] unfolding cleanCode_def by blast
  have "s = pre @ (w1 @ cleanCode s @ w2) @ post"
    using o c w by metis
  then have "s = pre @ w1 @ cleanCode s @ w2 @ post" by simp
  with o' c' w' show "\<exists>opening w1 w2 closing.
      s = opening @ w1 @ cleanCode s @ w2 @ closing
      \<and> (opening = [] \<or> (\<exists>l. opening = fence @ l @ [NL] \<and> (\<forall>c\<in>set l. is_letter c)))
      \<and> (closing = [] \<or> closing = fence)
      \<and> (\<forall>c\<in>set w1. is_ws c) \<and> (\<forall>c\<in>set w2. is_ws c)" by blast
next
  show "cleanCode s = [] \<or> (\<not> is_ws (hd (cleanCode s)) \<and> \<not> is_ws (last (cleanCode s)))"
    unfolding cleanCode_def by (rule trim_trimmed)
next
  show "cleanCode (str ''```html'' @ [NL] @ str ''<p>x</p>'' @ [NL] @ str ''```'') = str ''<p>x</p>''"
    by code_simp
qed

text \<open>The decomposition at an input whose fence is not at the very start.\<close>

theorem cleanCode_strips_only_wrappers_witness:
  "\<exists>opening w1 w2 closing.
      str ''  ```js'' @ [NL] @ str ''let a = 1;'' @ [NL] @ str ''```'' =
        opening @ w1 @ (str ''```js'' @ [NL] @ str ''let a = 1;'') @ w2 @ closing
      \<and> (opening = [] \<or> (\<exists>l. opening = fence @ l @ [NL] \<and> (\<forall>c\<in>set l. is_letter c)))
      \<and> (closing = [] \<or> closing = fence)
      \<and> (\<forall>c\<in>set w1. is_ws c) \<and> (\<forall>c\<in>set w2. is_ws c)"
proof -
  have e: "cleanCode (str ''  ```js'' @ [NL] @ str ''let a = 1;'' @ [NL] @ str ''```'')
             = str ''```js'' @ [NL] @ str ''let a = 1;''"
    by code_simp
  from cleanCode_strips_only_wrappers
         [of "str ''  ```js'' @ [NL] @ str ''let a = 1;'' @ [NL] @ str ''```''"]
  show ?thesis unfolding e by (rule conjunct1)
qed

text \<open>
  Claim C4, as stated: \<^verbatim>\<open>cleanCode(cleanCode(s)) == cleanCode(s)\<close> for every \<open>s\<close>. One
  application removes one opening and one closing marker, so a doubly fenced input loses
  its inner fence only on the second application.
\<close>

theorem cleanCode_idempotent_counterexample:
  "cleanCode (cleanCode (str ''```'' @ [NL] @ str ''```html'' @ [NL] @ str ''<p>x</p>''
                          @ [NL] @ str ''```'' @ [NL] @ str ''```''))
   \<noteq> cleanCode (str ''```'' @ [NL] @ str ''```html'' @ [NL] @ str ''<p>x</p>''
                          @ [NL] @ str ''```'' @ [NL] @ str ''```'')"
  by code_simp

text \<open>
  Claim C4, amended. A second application returns the sanitized text unchanged exactly
  when that text neither opens with a fence line nor ends with a closing fence.
\<close>

theorem cleanCode_idempotent_iff:
  "cleanCode (cleanCode s) = cleanCode s \<longleftrightarrow>
     \<not> opens_with_fence (cleanCode s) \<and> \<not> ends_with_fence (cleanCode s)"
proof
  assume eq: "cleanCode (cleanCode s) = cleanCode s"
  show "\<not> opens_with_fence (cleanCode s) \<and> \<not> ends_with_fence (cleanCode s)"
  proof (rule ccontr)
    assume "\<not> (\<not> opens_with_fence (cleanCode s) \<and> \<not> ends_with_fence (cleanCode s))"
    then have "opens_with_fence (cleanCode s) \<or> ends_with_fence (cleanCode s)" by blast
    from cleanCode_shrinks [OF this] eq show False by simp
  qed
next
  assume h: "\<not> opens_with_fence (cleanCode s) \<and> \<not> ends_with_fence (cleanCode s)"
  have "trim (cleanCode s) = cleanCode s" by (simp add: cleanCode_def trim_idem)
  with h show "cleanCode (cleanCode s) = cleanCode s" by (simp add: cleanCode_fix)
qed

theorem cleanCode_idempotent_iff_witness:
  "cleanCode (cleanCode (str ''```html'' @ [NL] @ str ''<p>x</p>'' @ [NL] @ str ''```''))
     = cleanCode (str ''```html'' @ [NL] @ str ''<p>x</p>'' @ [NL] @ str ''```'')
   \<and> \<not> opens_with_fence (cleanCode (str ''```html'' @ [NL] @ str ''<p>x</p>'' @ [NL] @ str ''```''))
   \<and> \<not> ends_with_fence (cleanCode (str ''```html'' @ [NL] @ str ''<p>x</p>'' @ [NL] @ str ''```''))"
proof -
  have h: "\<not> opens_with_fence (cleanCode (str ''```html'' @ [NL] @ str ''<p>x</p>'' @ [NL] @ str ''```''))
   \<and> \<not> ends_with_fence (cleanCode (str ''```html'' @ [NL] @ str ''<p>x</p>'' @ [NL] @ str ''```''))"
    by code_simp
  from iffD2 [OF cleanCode_idempotent_iff h] h show ?thesis by (rule conjI)
qed

section \<open>Properties of the snapshot callback\<close>

lemma set_insert_by: "set (insert_by cmp x xs) = insert x (set xs)"
  by (induction xs) auto

lemma mset_insert_by: "mset (insert_by cmp x xs) = add_mset x (mset xs)"
  by (induction xs) auto

lemma mset_foldl_insert_by:
  "mset (foldl (\<lambda>acc x. insert_by cmp x acc) acc xs) = mset acc + mset xs"
  by (induction xs arbitrary: acc) (auto simp: mset_insert_by)

lemma mset_sort_by: "mset (sort_by cmp xs) = mset xs"
  by (simp add: sort_by_def mset_foldl_insert_by)

lemma sorted_insert_by:
  fixes k :: "'a \<Rightarrow> int"
  assumes "\<forall>y\<in>set xs. (cmp x y < 0) = (k x < k y)"
    and "sorted (map k xs)"
  shows "sorted (map k (insert_by cmp x xs))"
  using assms
proof (induction xs)
  case Nil
  then show ?case by simp
next
  case (Cons y ys)
  show ?case
  proof (cases "cmp x y < 0")
    case True
    with Cons.prems have "k x < k y" by simp
    with Cons.prems True show ?thesis by fastforce
  next
    case False
    with Cons.prems have "k y \<le> k x" by simp
    moreover from Cons have "sorted (map k (insert_by cmp x ys))" by simp
    ultimately show ?thesis using False Cons.prems by (auto simp: set_insert_by)
  qed
qed

lemma sorted_foldl_insert_by:
  fixes k :: "'a \<Rightarrow> int"
  assumes "\<forall>x\<in>set acc \<union> set xs. \<forall>y\<in>set acc \<union> set xs. (cmp x y < 0) = (k x < k y)"
    and "sorted (map k acc)"
  shows "sorted (map k (foldl (\<lambda>acc x. insert_by cmp x acc) acc xs))"
  using assms
proof (induction xs arbitrary: acc)
  case Nil
  then show ?case by simp
next
  case (Cons x xs)
  have s: "sorted (map k (insert_by cmp x acc))"
    using Cons.prems by (intro sorted_insert_by) auto
  have "\<forall>a\<in>set (insert_by cmp x acc) \<union> set xs. \<forall>b\<in>set (insert_by cmp x acc) \<union> set xs.
          (cmp a b < 0) = (k a < k b)"
    using Cons.prems(1) by (auto simp: set_insert_by)
  from Cons.IH [OF this s] show ?case by simp
qed

lemma sorted_sort_by:
  fixes k :: "'a \<Rightarrow> int"
  assumes "\<forall>x\<in>set xs. \<forall>y\<in>set xs. (cmp x y < 0) = (k x < k y)"
  shows "sorted (map k (sort_by cmp xs))"
  unfolding sort_by_def using assms by (intro sorted_foldl_insert_by) auto

lemma set_sort_by: "set (sort_by cmp xs) = set xs"
  using mset_sort_by [of cmp xs] by (metis set_mset_mset)

lemma compareFn_both:
  "orderIndex a = Some i \<Longrightarrow> orderIndex b = Some j \<Longrightarrow> compareFn a b = i - j"
  by (simp add: compareFn_def)

lemma compareFn_fallback:
  "orderIndex a = None \<or> orderIndex b = None \<Longrightarrow>
     compareFn a b = seconds_or_0 b - seconds_or_0 a"
  by (auto simp: compareFn_def split: option.splits)

lemma sort_all_indexed:
  assumes "\<forall>e\<in>set data. orderIndex e \<noteq> None"
  shows "\<exists>ks. map orderIndex (sort_by compareFn data) = map Some ks \<and> sorted ks"
proof -
  have "\<forall>x\<in>set data. \<forall>y\<in>set data.
          (compareFn x y < 0) = (the (orderIndex x) < the (orderIndex y))"
    using assms by (auto simp: compareFn_def split: option.splits)
  then have s: "sorted (map (\<lambda>e. the (orderIndex e)) (sort_by compareFn data))"
    by (rule sorted_sort_by)
  have "map orderIndex (sort_by compareFn data)
          = map Some (map (\<lambda>e. the (orderIndex e)) (sort_by compareFn data))"
    using assms by (auto simp: set_sort_by)
  with s show ?thesis by blast
qed

lemma sort_none_indexed:
  assumes "\<forall>e\<in>set data. orderIndex e = None"
  shows "sorted (rev (map seconds_or_0 (sort_by compareFn data)))"
proof -
  have "\<forall>x\<in>set data. \<forall>y\<in>set data.
          (compareFn x y < 0) = (- seconds_or_0 x < - seconds_or_0 y)"
    using assms by (auto simp: compareFn_def)
  then have "sorted (map (\<lambda>e. - seconds_or_0 e) (sort_by compareFn data))"
    by (rule sorted_sort_by)
  then have "sorted_wrt (\<lambda>a b. seconds_or_0 b \<le> seconds_or_0 a) (sort_by compareFn data)"
    by (simp add: sorted_map)
  then have "sorted_wrt (\<lambda>a b. a \<le> b) (rev (map seconds_or_0 (sort_by compareFn data)))"
    by (simp add: sorted_wrt_rev sorted_wrt_map)
  then show ?thesis by simp
qed

text \<open>
  Claim C2, as stated: a batch in which some entry lacks \<open>orderIndex\<close> is ordered as a
  whole by \<open>createdAt\<close> descending. The comparator decides per pair. In the batch below
  one entry is legacy and two are indexed; the comparator orders the three consistently
  (C before A before B, whichever way round it is asked), so every conforming sort returns
  C, A, B from any arrangement of the batch: the two indexed entries stay in index order,
  the older one first.
\<close>

theorem mixed_batch_counterexample:
  "orderIndex entry_C = None
   \<and> sort_by compareFn [entry_A, entry_B, entry_C] = [entry_C, entry_A, entry_B]
   \<and> sort_by compareFn [entry_C, entry_B, entry_A] = [entry_C, entry_A, entry_B]
   \<and> map seconds_or_0 (sort_by compareFn [entry_A, entry_B, entry_C]) = [300, 100, 200]
   \<and> \<not> sorted (rev (map seconds_or_0 (sort_by compareFn [entry_A, entry_B, entry_C])))
   \<and> compareFn entry_C entry_A < 0 \<and> compareFn entry_A entry_B < 0
   \<and> compareFn entry_C entry_B < 0 \<and> compareFn entry_A entry_C > 0
   \<and> compareFn entry_B entry_A > 0 \<and> compareFn entry_B entry_C > 0"
  by (simp add: ex_defs sort_by_def compareFn_def seconds_or_0_def)

text \<open>
  Claim C2, amended. The order of a pushed batch is derived per pair of entries: a pair
  is compared by \<open>orderIndex\<close> ascending when both entries define it and by \<open>createdAt\<close>
  descending (an absent timestamp counting as 0) as soon as one of them lacks it. So a
  batch in which every entry defines \<open>orderIndex\<close> comes out in ascending index order, a
  batch in which none does comes out newest first, and the result is always a
  rearrangement of the batch; for a mixed batch only the pairwise rule is promised.
\<close>

theorem snapshot_order_per_pair:
  "((\<forall>e\<in>set data. orderIndex e \<noteq> None) \<longrightarrow>
      (\<exists>ks. map orderIndex (sort_by compareFn data) = map Some ks \<and> sorted ks))
   \<and> ((\<forall>e\<in>set data. orderIndex e = None) \<longrightarrow>
      sorted (rev (map seconds_or_0 (sort_by compareFn data))))
   \<and> mset (sort_by compareFn data) = mset data
   \<and> projects (onSnapshot data st) = map Obj (sort_by compareFn data)
   \<and> (orderIndex a = Some i \<and> orderIndex b = Some j \<longrightarrow> compareFn a b = i - j)
   \<and> (orderIndex a = None \<or> orderIndex b = None \<longrightarrow>
        compareFn a b = seconds_or_0 b - seconds_or_0 a)"
  using sort_all_indexed [of data] sort_none_indexed [of data] mset_sort_by [of compareFn data]
    compareFn_both [of a i b j] compareFn_fallback [of a b]
  by (simp add: onSnapshot_def)

text \<open>An indexed batch, a legacy batch and two pairs, each under its own hypothesis.\<close>

theorem snapshot_order_per_pair_witness:
  "(\<exists>ks. map orderIndex (sort_by compareFn [entry_B, entry_A]) = map Some ks \<and> sorted ks)
   \<and> sorted (rev (map seconds_or_0 (sort_by compareFn [entry_D, entry_C])))
   \<and> compareFn entry_A entry_B = 0 - 1
   \<and> compareFn entry_A entry_C = seconds_or_0 entry_C - seconds_or_0 entry_A"
proof -
  have a: "\<forall>e\<in>set [entry_B, entry_A]. orderIndex e \<noteq> None" by (simp add: ex_defs)
  have n: "\<forall>e\<in>set [entry_D, entry_C]. orderIndex e = None" by (simp add: ex_defs)
  have b: "orderIndex entry_A = Some 0 \<and> orderIndex entry_B = Some 1" by (simp add: ex_defs)
  have f: "orderIndex entry_A = None \<or> orderIndex entry_C = None" by (simp add: ex_defs)
  from snapshot_order_per_pair [of "[entry_B, entry_A]" hub_init entry_A 0 entry_B 1] a b
  have 1: "\<exists>ks. map orderIndex (sort_by compareFn [entry_B, entry_A]) = map Some ks \<and> sorted ks"
    and 2: "compareFn entry_A entry_B = 0 - 1" by blast+
  from snapshot_order_per_pair [of "[entry_D, entry_C]" hub_init entry_A 0 entry_C 0] n f
  have 3: "sorted (rev (map seconds_or_0 (sort_by compareFn [entry_D, entry_C])))"
    and 4: "compareFn entry_A entry_C = seconds_or_0 entry_C - seconds_or_0 entry_A" by blast+
  from 1 3 2 4 show ?thesis by (intro conjI)
qed

text \<open>
  Claim C1, as stated: while a drag is in flight a push does not change the working
  list. The callback has no access to the drag marker and always stores the batch. Below,
  the first card has been dragged over the second (working order B, A); the listener then
  delivers the stored documents again, as new objects, and the list is back at A, B while
  the marker still holds the dragged object.
\<close>

theorem push_while_dragging_counterexample:
  "draggedItem hub_dragged = Obj entry_A
   \<and> projects hub_dragged = [Obj entry_B, Obj entry_A]
   \<and> projects (onSnapshot [entry_B\<lparr>ref := 5\<rparr>, entry_A\<lparr>ref := 6\<rparr>] hub_dragged)
       = [Obj (entry_A\<lparr>ref := 6\<rparr>), Obj (entry_B\<lparr>ref := 5\<rparr>)]
   \<and> projects (onSnapshot [entry_B\<lparr>ref := 5\<rparr>, entry_A\<lparr>ref := 6\<rparr>] hub_dragged)
       \<noteq> projects hub_dragged"
  by (simp add: run_defs)

text \<open>
  Claim C1, amended. Every snapshot push fully replaces the working list by the pushed
  batch in its derived order, whether the engine is idle or a drag is in flight: the new
  list holds exactly the pushed entries and does not depend on the previous working list
  or on the marker. The dragged-item marker, the log and the creator flag are left as
  they are.
\<close>

theorem onSnapshot_always_replaces:
  "projects (onSnapshot data st) = map Obj (sort_by compareFn data)
   \<and> mset (projects (onSnapshot data st)) = image_mset Obj (mset data)
   \<and> projects (onSnapshot data (st\<lparr>projects := ps, draggedItem := d\<rparr>))
       = projects (onSnapshot data st)
   \<and> draggedItem (onSnapshot data st) = draggedItem st
   \<and> console (onSnapshot data st) = console st
   \<and> isCreator (onSnapshot data st) = isCreator st"
proof -
  have "mset (map Obj (sort_by compareFn data)) = image_mset Obj (mset data)"
    using mset_sort_by [of compareFn data] by (simp only: mset_map)
  then show ?thesis by (simp add: onSnapshot_def)
qed

section \<open>Properties of the drag handlers\<close>

lemma batch_updates_Obj:
  "batch_updates i (map Obj es) = Inr (zip (map id' es) (map int [i..<i + length es]))"
proof (induction es arbitrary: i)
  case Nil
  then show ?case by simp
next
  case (Cons e es)
  have "[i..<i + length (e # es)] = i # [Suc i..<Suc i + length es]"
    by (simp add: upt_rec)
  with Cons [of "Suc i"] show ?case by simp
qed

lemma apply_batch_lookup:
  "apply_batch ws m k = (case map_of (rev ws) k of None \<Rightarrow> m k | Some v \<Rightarrow> Some v)"
  unfolding apply_batch_def
proof (induction ws arbitrary: m)
  case Nil
  then show ?case by simp
next
  case (Cons w ws)
  obtain k' v' where w: "w = (k', v')" by (cases w)
  show ?case using Cons [of "m(k' \<mapsto> v')"] w
    by (auto simp: map_of_append map_add_def split: option.splits)
qed

lemma apply_batch_written:
  assumes "k \<in> fst ` set ws"
  shows "\<exists>v. apply_batch ws m k = Some v \<and> (k, v) \<in> set ws"
proof -
  from assms have "k \<in> fst ` set (rev ws)" by simp
  then obtain v where v: "map_of (rev ws) k = Some v"
    by (metis map_of_eq_None_iff not_Some_eq)
  then have "(k, v) \<in> set ws" using map_of_SomeD by fastforce
  moreover from v have "apply_batch ws m k = Some v"
    by (simp add: apply_batch_lookup)
  ultimately show ?thesis by blast
qed

lemma apply_batch_injective:
  assumes d: "distinct (map snd ws)"
    and k1: "k1 \<in> fst ` set ws" and k2: "k2 \<in> fst ` set ws" and ne: "k1 \<noteq> k2"
  shows "apply_batch ws m k1 \<noteq> apply_batch ws m k2"
proof
  assume eq: "apply_batch ws m k1 = apply_batch ws m k2"
  from apply_batch_written [OF k1, of m] obtain v1
    where v1: "apply_batch ws m k1 = Some v1" "(k1, v1) \<in> set ws" by blast
  from apply_batch_written [OF k2, of m] obtain v2
    where v2: "apply_batch ws m k2 = Some v2" "(k2, v2) \<in> set ws" by blast
  from eq v1 v2 have "v1 = v2" by simp
  moreover from d have "inj_on snd (set ws)" by (simp add: distinct_map)
  ultimately have "(k1, v1) = (k2, v2)"
    using v1(2) v2(2) inj_onD [of snd "set ws" "(k1, v1)" "(k2, v2)"] by simp
  with ne show False by simp
qed

lemma handleDragEnd_entries:
  assumes "projects st = map Obj es"
  shows "handleDragEnd ok (st, db) =
     (if ok then Saved else Failed,
      st\<lparr>draggedItem := Null,
         console := console st @
           [if ok then ConsoleLog ''Order saved!'' else ConsoleError ''Failed to save order'']\<rparr>,
      commit ok (zip (map id' es) (map int [0..<length es])) db)"
  using assms batch_updates_Obj [of 0 es] by (simp add: handleDragEnd_def)

text \<open>
  Claim C3. For every working list of \<open>n\<close> entries, ending the drag submits one batch
  that pairs the entries' ids, in list order, with the positions \<open>0, \<dots>, n - 1\<close>. The
  written values are pairwise distinct, and once the batch is applied two entries with
  different ids never hold the same \<open>orderIndex\<close>, whatever the store held before.
\<close>

theorem reorder_commit_dense:
  assumes "projects st = map Obj es"
  shows "\<exists>ws st'.
      handleDragEnd ok (st, db) = (if ok then Saved else Failed, st', commit ok ws db)
      \<and> map fst ws = map id' es
      \<and> map snd ws = map int [0..<length es]
      \<and> distinct (map snd ws)
      \<and> (\<forall>k1 k2. k1 \<in> id' ` set es \<and> k2 \<in> id' ` set es \<and> k1 \<noteq> k2 \<longrightarrow>
            apply_batch ws (docs db) k1 \<noteq> apply_batch ws (docs db) k2)"
proof -
  define ws where "ws = zip (map id' es) (map int [0..<length es])"
  have f: "map fst ws = map id' es" by (simp add: ws_def)
  have s: "map snd ws = map int [0..<length es]" by (simp add: ws_def)
  have d: "distinct (map snd ws)" unfolding s by (simp add: distinct_map)
  have "fst ` set ws = id' ` set es" using f by (metis list.set_map)
  with d have i: "\<forall>k1 k2. k1 \<in> id' ` set es \<and> k2 \<in> id' ` set es \<and> k1 \<noteq> k2 \<longrightarrow>
            apply_batch ws (docs db) k1 \<noteq> apply_batch ws (docs db) k2"
    using apply_batch_injective [of ws] by blast
  from handleDragEnd_entries [OF assms, of ok db] f s d i show ?thesis
    unfolding ws_def by blast
qed

text \<open>The commit after dragging the first of two cards over the second.\<close>

theorem reorder_commit_dense_witness:
  "\<exists>ws st'. handleDragEnd True (hub_dragged, store_init) = (Saved, st', commit True ws store_init)
     \<and> map fst ws = [''b'', ''a''] \<and> map snd ws = [0, 1] \<and> distinct (map snd ws)
     \<and> apply_batch ws (docs store_init) ''b'' \<noteq> apply_batch ws (docs store_init) ''a''"
proof -
  have h: "projects hub_dragged = map Obj [entry_B, entry_A]"
    by (simp add: hub_dragged_projects)
  from reorder_commit_dense [OF h, of True store_init] obtain ws st' where
    1: "handleDragEnd True (hub_dragged, store_init) = (Saved, st', commit True ws store_init)"
    and 2: "map fst ws = map id' [entry_B, entry_A]"
    and 3: "map snd ws = map int [0..<length [entry_B, entry_A]]"
    and 4: "distinct (map snd ws)"
    and 5: "\<forall>k1 k2. k1 \<in> id' ` set [entry_B, entry_A] \<and> k2 \<in> id' ` set [entry_B, entry_A] \<and> k1 \<noteq> k2 \<longrightarrow>
            apply_batch ws (docs store_init) k1 \<noteq> apply_batch ws (docs store_init) k2"
    by auto
  from 2 have f2: "map fst ws = [''b'', ''a'']" by (simp add: ex_defs)
  from 3 have f3: "map snd ws = [0, 1]" by (simp add: upt_rec)
  have "''b'' \<in> id' ` set [entry_B, entry_A] \<and> ''a'' \<in> id' ` set [entry_B, entry_A] \<and> ''b'' \<noteq> ''a''"
    by (simp add: ex_defs)
  with 5 have "apply_batch ws (docs store_init) ''b'' \<noteq> apply_batch ws (docs store_init) ''a''"
    by blast
  with 1 f2 f3 4 show ?thesis
    by - (intro exI [of _ ws] exI [of _ st'] conjI; assumption)
qed

text \<open>
  Claim C5. For a working list of three entries A, B, C (distinct objects), dragging A
  and hovering over C gives the working order B, C, A; the commit that follows submits
  \<open>orderIndex\<close> 0, 1, 2 for B, C, A, which is what the store holds afterwards when the
  three ids differ. A hover over a slot that holds the dragged object itself changes
  nothing.
\<close>

theorem hover_reorder_deterministic:
  assumes p: "projects st = [Obj A, Obj B, Obj C]"
    and ab: "ref A \<noteq> ref B" and ac: "ref A \<noteq> ref C"
  shows "projects (handleDragOver 2 (handleDragStart 0 st)) = [Obj B, Obj C, Obj A]
    \<and> (\<exists>st'. handleDragEnd ok (handleDragOver 2 (handleDragStart 0 st), db) =
          (if ok then Saved else Failed, st',
           commit ok [(id' B, 0), (id' C, 1), (id' A, 2)] db))
    \<and> (distinct [id' A, id' B, id' C] \<longrightarrow>
          docs (commit True [(id' B, 0), (id' C, 1), (id' A, 2)] db) (id' B) = Some 0
        \<and> docs (commit True [(id' B, 0), (id' C, 1), (id' A, 2)] db) (id' C) = Some 1
        \<and> docs (commit True [(id' B, 0), (id' C, 1), (id' A, 2)] db) (id' A) = Some 2)
    \<and> (strict_eq (draggedItem s) (at_index (projects s) index) \<longrightarrow>
          handleDragOver index s = s)"
proof (intro conjI)
  show 1: "projects (handleDragOver 2 (handleDragStart 0 st)) = [Obj B, Obj C, Obj A]"
    using p ab ac
    by (simp add: handleDragOver_def handleDragStart_def at_index_def splice_in_def)
  have "projects (handleDragOver 2 (handleDragStart 0 st)) = map Obj [B, C, A]"
    using 1 by simp
  from handleDragEnd_entries [OF this, of ok db]
  show "\<exists>st'. handleDragEnd ok (handleDragOver 2 (handleDragStart 0 st), db) =
          (if ok then Saved else Failed, st',
           commit ok [(id' B, 0), (id' C, 1), (id' A, 2)] db)"
    by (simp add: upt_rec)
  show "distinct [id' A, id' B, id' C] \<longrightarrow>
          docs (commit True [(id' B, 0), (id' C, 1), (id' A, 2)] db) (id' B) = Some 0
        \<and> docs (commit True [(id' B, 0), (id' C, 1), (id' A, 2)] db) (id' C) = Some 1
        \<and> docs (commit True [(id' B, 0), (id' C, 1), (id' A, 2)] db) (id' A) = Some 2"
    by (auto simp: commit_def apply_batch_def)
  show "strict_eq (draggedItem s) (at_index (projects s) index) \<longrightarrow>
          handleDragOver index s = s"
    by (simp add: handleDragOver_def)
qed

text \<open>The three example entries, with a successful commit and a hover of A over itself.\<close>

theorem hover_reorder_deterministic_witness:
  "projects (handleDragOver 2 (handleDragStart 0 hub_abc))
      = [Obj entry_B, Obj entry_C, Obj entry_A]
   \<and> (\<exists>st'. handleDragEnd True (handleDragOver 2 (handleDragStart 0 hub_abc), store_init) =
          (Saved, st', commit True [(''b'', 0), (''c'', 1), (''a'', 2)] store_init))
   \<and> docs (commit True [(''b'', 0), (''c'', 1), (''a'', 2)] store_init) ''b'' = Some 0
   \<and> docs (commit True [(''b'', 0), (''c'', 1), (''a'', 2)] store_init) ''c'' = Some 1
   \<and> docs (commit True [(''b'', 0), (''c'', 1), (''a'', 2)] store_init) ''a'' = Some 2
   \<and> handleDragOver 0 (handleDragStart 0 hub_abc) = handleDragStart 0 hub_abc"
proof -
  have p: "projects hub_abc = [Obj entry_A, Obj entry_B, Obj entry_C]"
    by (simp add: hub_abc_def)
  have ab: "ref entry_A \<noteq> ref entry_B" and ac: "ref entry_A \<noteq> ref entry_C"
    by (simp_all add: ex_defs)
  have d: "distinct [id' entry_A, id' entry_B, id' entry_C]" by (simp add: ex_defs)
  have s: "strict_eq (draggedItem (handleDragStart 0 hub_abc))
             (at_index (projects (handleDragStart 0 hub_abc)) 0)"
    by (simp add: hub_abc_def handleDragStart_def at_index_def)
  have i: "id' entry_A = ''a''" "id' entry_B = ''b''" "id' entry_C = ''c''"
    by (simp_all add: ex_defs)
  from hover_reorder_deterministic
         [OF p ab ac, of True store_init "handleDragStart 0 hub_abc" 0] d s
  show ?thesis unfolding i by simp
qed

text \<open>
  Claim C6, as stated: a failed commit discards the optimistic working list and falls
  back to the last authoritative order. The handler keeps no copy of that order and its
  \<^verbatim>\<open>catch\<close> branch only logs. Below, the snapshot order is A, B, the drag leaves B, A,
  the commit fails, and the working list is still B, A.
\<close>

theorem commit_failure_counterexample:
  "fst (handleDragEnd False (hub_dragged, store_init)) = Failed
   \<and> projects hub_synced = [Obj entry_A, Obj entry_B]
   \<and> projects (fst (snd (handleDragEnd False (hub_dragged, store_init))))
       = [Obj entry_B, Obj entry_A]
   \<and> projects (fst (snd (handleDragEnd False (hub_dragged, store_init))))
       \<noteq> projects hub_synced"
  by (simp add: hub_dragged_projects hub_synced_projects handleDragEnd_def ex_defs)

text \<open>
  Claim C6, amended. Whenever the reorder commit fails, the failure is logged, the
  dragged-item marker is cleared, the batch has been submitted exactly once (no retry) and
  the stored documents are unchanged; the working list stays as it was at release, it is
  neither discarded nor reverted to the last snapshot.
\<close>

theorem commit_failure_keeps_working_list:
  assumes "handleDragEnd ok (st, db) = (Failed, st', db')"
  shows "\<not> ok
    \<and> projects st' = projects st
    \<and> draggedItem st' = Null
    \<and> console st' = console st @ [ConsoleError ''Failed to save order'']
    \<and> docs db' = docs db
    \<and> (\<exists>ws. batch_updates 0 (projects st) = Inr ws \<and> submitted db' = submitted db @ [ws])"
  using assms
  by (auto simp: handleDragEnd_def commit_def Let_def split: sum.splits if_splits)

text \<open>The failing commit of the example drag.\<close>

theorem commit_failure_keeps_working_list_witness:
  "projects (fst (snd (handleDragEnd False (hub_dragged, store_init)))) = projects hub_dragged
   \<and> draggedItem (fst (snd (handleDragEnd False (hub_dragged, store_init)))) = Null
   \<and> console (fst (snd (handleDragEnd False (hub_dragged, store_init))))
       = console hub_dragged @ [ConsoleError ''Failed to save order'']
   \<and> docs (snd (snd (handleDragEnd False (hub_dragged, store_init)))) = docs store_init
   \<and> (\<exists>ws. batch_updates 0 (projects hub_dragged) = Inr ws
         \<and> submitted (snd (snd (handleDragEnd False (hub_dragged, store_init))))
             = submitted store_init @ [ws])"
proof -
  have "fst (handleDragEnd False (hub_dragged, store_init)) = Failed"
    by (simp add: hub_dragged_projects handleDragEnd_def)
  then have "handleDragEnd False (hub_dragged, store_init) =
      (Failed, fst (snd (handleDragEnd False (hub_dragged, store_init))),
       snd (snd (handleDragEnd False (hub_dragged, store_init))))"
    by (metis prod.collapse)
  from commit_failure_keeps_working_list [OF this] show ?thesis by blast
qed

text \<open>
  Claim C10. When a hover event reaches a creator's card while the dragged-item marker is
  \<^verbatim>\<open>null\<close> and the list holds entries only, the handler filters nothing out and splices
  the marker in at the hovered position: the list grows by one, and it now contains
  \<^verbatim>\<open>null\<close>, which is not an entry, so its set of elements has changed.
\<close>

theorem hover_without_drag_inserts_null:
  assumes c: "isCreator st" and d: "draggedItem st = Null"
    and i: "index < length (projects st)" and n: "Null \<notin> set (projects st)"
  shows "projects (onDragOver index st)
           = take index (projects st) @ Null # drop index (projects st)
    \<and> Null \<in> set (projects (onDragOver index st))
    \<and> set (projects (onDragOver index st)) \<noteq> set (projects st)
    \<and> length (projects (onDragOver index st)) = Suc (length (projects st))"
proof -
  from i n have "projects st ! index \<noteq> Null" by (metis nth_mem)
  then have ne: "\<not> strict_eq Null (projects st ! index)"
    by (cases "projects st ! index") auto
  have "\<forall>x\<in>set (projects st). \<not> strict_eq x Null"
  proof
    fix x assume "x \<in> set (projects st)"
    with n have "x \<noteq> Null" by auto
    then show "\<not> strict_eq x Null" by (cases x) auto
  qed
  then have f: "filter (\<lambda>item. \<not> strict_eq item Null) (projects st) = projects st"
    by (simp add: filter_id_conv)
  have p: "projects (onDragOver index st)
           = take index (projects st) @ Null # drop index (projects st)"
    using c d i ne f
    by (simp add: onDragOver_def handleDragOver_def at_index_def splice_in_def Let_def)
  have m: "Null \<in> set (projects (onDragOver index st))" unfolding p by simp
  from m n have "set (projects (onDragOver index st)) \<noteq> set (projects st)" by auto
  moreover have "length (projects (onDragOver index st)) = Suc (length (projects st))"
    unfolding p using i by simp
  ultimately show ?thesis using p m by blast
qed

text \<open>A hover over the second card of the freshly synced gallery.\<close>

theorem hover_without_drag_inserts_null_witness:
  "projects (onDragOver 1 hub_synced) = [Obj entry_A, Null, Obj entry_B]
   \<and> Null \<in> set (projects (onDragOver 1 hub_synced))
   \<and> set (projects (onDragOver 1 hub_synced)) \<noteq> set (projects hub_synced)
   \<and> length (projects (onDragOver 1 hub_synced)) = Suc (length (projects hub_synced))"
proof -
  have c: "isCreator hub_synced" and d: "draggedItem hub_synced = Null"
    by (simp_all add: hub_synced_def hub_init_def onSnapshot_def)
  have i: "1 < length (projects hub_synced)" and n: "Null \<notin> set (projects hub_synced)"
    by (simp_all add: hub_synced_projects)
  from hover_without_drag_inserts_null [OF c d i n]
  have 1: "projects (onDragOver 1 hub_synced)
             = take 1 (projects hub_synced) @ Null # drop 1 (projects hub_synced)"
    and 2: "Null \<in> set (projects (onDragOver 1 hub_synced))"
    and 3: "set (projects (onDragOver 1 hub_synced)) \<noteq> set (projects hub_synced)"
    and 4: "length (projects (onDragOver 1 hub_synced)) = Suc (length (projects hub_synced))"
    by blast+
  from 1 have "projects (onDragOver 1 hub_synced) = [Obj entry_A, Null, Obj entry_B]"
    by (simp add: hub_synced_projects)
  with 2 3 4 show ?thesis by blast
qed

section \<open>Properties of the viewer and the palette\<close>

text \<open>The handler modelled by \<open>onerror\<close> is the one the script text installs.\<close>

lemma script_handler_text:
  "script = str ''<script>window.onerror = function(m){document.body.innerHTML=''
     @ [0x27] @ panel_head @ [0x27] @ str ''+m+'' @ [0x27] @ panel_tail @ [0x27]
     @ str ''}</script>''"
  by code_simp

text \<open>
  Claim C7. The handler is injected before the project's code so that a runtime error of
  the hosted project replaces the visible content of the isolated document with an error
  panel. The first half holds: the effect empties the document and writes the handler
  script followed by exactly the entry's code. The second half holds only while the
  document has a body: the handler then replaces the body's markup by the panel around
  the message. On a document without a body the handler throws a \<^verbatim>\<open>TypeError\<close> of its
  own and shows no panel. That is the state in which the entry below raises its error: its
  code is one script element, written right after the handler's, so both run before any
  body element exists.
\<close>

theorem viewer_handler_needs_body:
  "(\<exists>d'. viewer_effect (Some d) (Some p) = Some d' \<and> content d' = script @ code p)
   \<and> (\<exists>d'. viewer_effect (Some d) (Some entry_T) = Some d'
          \<and> content d' = script @ str ''<script>throw new Error(1)</script>'')
   \<and> onerror m (dm\<lparr>body := None\<rparr>) = Inl TypeError
   \<and> onerror m (dm\<lparr>body := Some old\<rparr>) = Inr (dm\<lparr>body := Some (panel m)\<rparr>)"
proof (intro conjI)
  show "\<exists>d'. viewer_effect (Some d) (Some p) = Some d' \<and> content d' = script @ code p"
    by (simp add: viewer_effect_def doc_open_def doc_write_def doc_close_def)
  show "\<exists>d'. viewer_effect (Some d) (Some entry_T) = Some d'
          \<and> content d' = script @ str ''<script>throw new Error(1)</script>''"
    by (simp add: viewer_effect_def doc_open_def doc_write_def doc_close_def entry_T_def)
  show "onerror m (dm\<lparr>body := None\<rparr>) = Inl TypeError"
    by (simp add: onerror_def)
  show "onerror m (dm\<lparr>body := Some old\<rparr>) = Inr (dm\<lparr>body := Some (panel m)\<rparr>)"
    by (simp add: onerror_def)
qed

text \<open>
  Claim C9, as stated: a stored color outside the palette resolves to indigo. Only a
  falsy field is replaced by the default key; any other value is looked up as it is.
\<close>

theorem unrecognized_color_counterexample:
  "color entry_C = Some ''teal'' \<and> map_of COLORS ''teal'' = None
   \<and> theme_of entry_C = None \<and> theme_of entry_C \<noteq> map_of COLORS ''indigo''"
  by (simp add: ex_defs theme_of_def color_key_def COLORS_def)

lemma COLORS_keys:
  "fst ` set COLORS = {''indigo'', ''emerald'', ''amber'', ''rose'', ''cyan'', ''purple''}"
  by (simp add: COLORS_def)

text \<open>
  Claim C9, amended. The first palette entry is indigo. An entry whose color field is
  absent or empty resolves to it; an entry whose color is one of the six palette keys
  resolves to that key's theme; a value outside the palette is not defaulted, the lookup
  yields no theme.
\<close>

theorem accent_color_resolution:
  "fst (hd COLORS) = ''indigo''
   \<and> (color p = None \<or> color p = Some [] \<longrightarrow> theme_of p = Some (snd (hd COLORS)))
   \<and> (color p = Some c \<and> c \<in> fst ` set COLORS \<longrightarrow>
        theme_of p = map_of COLORS c \<and> theme_of p \<noteq> None)
   \<and> (color p = Some c \<and> c \<noteq> [] \<and> c \<notin> fst ` set COLORS \<longrightarrow> theme_of p = None)"
proof (intro conjI impI)
  show "fst (hd COLORS) = ''indigo''" by (simp add: COLORS_def)
next
  assume "color p = None \<or> color p = Some []"
  then have "color_key p = ''indigo''" by (auto simp: color_key_def)
  then show "theme_of p = Some (snd (hd COLORS))" by (simp add: theme_of_def COLORS_def)
next
  assume a: "color p = Some c \<and> c \<in> fst ` set COLORS"
  then have "c \<noteq> []" by (auto simp: COLORS_keys)
  with a have k: "color_key p = c" by (simp add: color_key_def)
  then show "theme_of p = map_of COLORS c" by (simp add: theme_of_def)
  from a have "map_of COLORS c \<noteq> None" by (simp add: map_of_eq_None_iff)
  with k show "theme_of p \<noteq> None" by (simp add: theme_of_def)
next
  assume a: "color p = Some c \<and> c \<noteq> [] \<and> c \<notin> fst ` set COLORS"
  then have "color_key p = c" by (simp add: color_key_def)
  with a show "theme_of p = None" by (simp add: theme_of_def map_of_eq_None_iff)
qed

text \<open>An entry without a color, one with a palette key and one with a foreign key.\<close>

theorem accent_color_resolution_witness:
  "theme_of entry_A = Some (snd (hd COLORS))
   \<and> theme_of entry_B = map_of COLORS ''emerald'' \<and> theme_of entry_B \<noteq> None
   \<and> theme_of entry_C = None"
proof -
  have a: "color entry_A = None \<or> color entry_A = Some []" by (simp add: entry_A_def)
  have b: "color entry_B = Some ''emerald'' \<and> ''emerald'' \<in> fst ` set COLORS"
    by (simp add: entry_B_def COLORS_def)
  have c: "color entry_C = Some ''teal'' \<and> ''teal'' \<noteq> [] \<and> ''teal'' \<notin> fst ` set COLORS"
    by (simp add: entry_C_def COLORS_def)
  from accent_color_resolution [of entry_A] a
  have 1: "theme_of entry_A = Some (snd (hd COLORS))" by blast
  from accent_color_resolution [of entry_B "''emerald''"] b
  have 2: "theme_of entry_B = map_of COLORS ''emerald'' \<and> theme_of entry_B \<noteq> None" by blast
  from accent_color_resolution [of entry_C "''teal''"] c
  have 3: "theme_of entry_C = None" by blast
  from 1 2 3 show ?thesis by blast
qed

end
